theory Spec2Isabelle
  imports Main "HOL-Library.Finite_Map" "HOL-Library.AList"
begin

section \<open>Data model\<close>

text \<open>
  The parsed page is a tree of BeautifulSoup page elements. A \<open>Tag\<close> has a name, an
  attribute dictionary and an ordered list \<open>contents\<close> of children; a
  \<open>NavigableString\<close> is a piece of text (it has no attribute \<open>contents\<close>). The
  \<open>BeautifulSoup\<close> object itself is a tag named \<open>[document]\<close>.

  Two tags are equal in Python (\<open>Tag.__eq__\<close>, with \<open>Tag.__hash__\<close> the hash of the
  rendered markup) exactly when they have the same name, the same attributes and equal
  contents, recursively. Attribute dictionaries compare as finite maps. HOL equality on
  \<open>node\<close> is therefore the equality that a Python dictionary keyed by tags uses.
\<close>

datatype node =
    NavigableString string
  | Tag string "(string, string) fmap" "node list"

datatype error = AttributeError | KeyError | ReError

fun is_tag :: "node \<Rightarrow> bool" where
  "is_tag (Tag name attrs contents) = True"
| "is_tag (NavigableString s) = False"

fun tag_name :: "node \<Rightarrow> string option" where
  "tag_name (Tag name attrs contents) = Some name"
| "tag_name (NavigableString s) = None"

text \<open>\<open>node.find_all(True, recursive=False)\<close>: the children that are tags, in order.\<close>

definition find_all_True :: "node list \<Rightarrow> node list" where
  "find_all_True contents = filter is_tag contents"

text \<open>
  \<open>node.find_all(name)\<close>: every descendant tag with that name, in document order; the
  node itself is not among them. \<open>node.h1\<close> is \<open>node.find('h1')\<close>, the first of them or
  \<open>None\<close>, and a tag is always truthy.
\<close>

fun find_all :: "string \<Rightarrow> node \<Rightarrow> node list" where
  "find_all nm (NavigableString s) = []"
| "find_all nm (Tag name attrs contents) =
     concat (map (\<lambda>c. (if tag_name c = Some nm then [c] else []) @ find_all nm c) contents)"

text \<open>\<open>node.text\<close>: all strings below the node, concatenated.\<close>

fun get_text :: "node \<Rightarrow> string" where
  "get_text (NavigableString s) = s"
| "get_text (Tag name attrs contents) = concat (map get_text contents)"

section \<open>Parser: depth and density\<close>

text \<open>
  \<open>_calc_depth\<close>: a node with a non-empty \<open>contents\<close> list is one deeper than its deepest
  child, where the children are all of \<open>contents\<close>, strings included; everything else has
  depth 0.
\<close>

fun calc_depth :: "node \<Rightarrow> nat" where
  "calc_depth (NavigableString s) = 0"
| "calc_depth (Tag name attrs contents) =
     (if contents \<noteq> [] then Max (set (map calc_depth contents)) + 1 else 0)"

text \<open>
  \<open>_calc_density\<close>: a dictionary from node to depth, filled in order with
  \<open>node_density.update({node: density})\<close>. A node equal to an earlier key overwrites
  that key's value and adds no entry.
\<close>

definition calc_density :: "node list \<Rightarrow> (node \<times> nat) list" where
  "calc_density nodes = foldl (\<lambda>d nd. AList.update nd (calc_depth nd) d) [] nodes"

section \<open>Parser: the pruning recursion\<close>

text \<open>
  The three \<open>continue\<close> tests of the inner loop of \<open>main_content\<close>: the tag is a
  paragraph or a level-1 or level-2 heading; \<open>node.h1\<close> finds a level-1 heading below
  the node; or \<open>forced\<close> is set and \<open>node.find_all('p')\<close> has more than 3 elements.
\<close>

definition exempt :: "bool \<Rightarrow> node \<Rightarrow> bool" where
  "exempt forced nd =
     (tag_name nd = Some ''p'' \<or> tag_name nd = Some ''h1'' \<or> tag_name nd = Some ''h2'' \<or>
      find_all ''h1'' nd \<noteq> [] \<or>
      (forced \<and> length (find_all ''p'' nd) > 3))"

text \<open>
  The keys of a density dictionary are node objects of the tree, and \<open>decompose\<close> and the
  recursion act on those objects. The model marks, in the contents of the parent, which
  children are key objects: a child tag is a key unless an equal tag stands before it
  among the children (then \<open>update\<close> found the earlier key and kept it). Strings are
  never keys.
\<close>

fun mark_keys :: "node list \<Rightarrow> node list \<Rightarrow> (bool \<times> node) list" where
  "mark_keys seen [] = []"
| "mark_keys seen (c # cs) =
     (if is_tag c \<and> c \<notin> set seen then (True, c) # mark_keys (c # seen) cs
      else (False, c) # mark_keys seen cs)"

text \<open>
  The inner loop \<open>for node in keys\<close>: a key that is not exempt and whose entry
  \<open>density[node]\<close> is strictly below \<open>avg\<close> is decomposed, that is, taken out of the
  parent's contents with everything below it. Every key has an entry (lemma
  \<open>density_entry_of_key\<close> below), so the lookup cannot raise.
\<close>

definition decompose_loop ::
  "rat \<Rightarrow> bool \<Rightarrow> (node \<times> nat) list \<Rightarrow> (bool \<times> node) list \<Rightarrow> (bool \<times> node) list" where
  "decompose_loop avg forced density marked =
     filter (\<lambda>(k, nd). \<not> (k \<and> \<not> exempt forced nd \<and>
        (case map_of density nd of Some d \<Rightarrow> of_nat d < avg | None \<Rightarrow> False))) marked"

text \<open>
  One sibling set: the children of \<open>node\<close> are collected, their density dictionary is
  built afresh, \<open>avg = sum(density.values()) * coef\<close>, and the inner loop runs. The
  coefficient \<open>self.COEFF\<close> is a rational number here; for the configured 0.5 the
  floating-point product is exact.
\<close>

definition threshold :: "rat \<Rightarrow> (node \<times> nat) list \<Rightarrow> rat" where
  "threshold coef density = of_nat (sum_list (map snd density)) * coef"

definition prune_siblings :: "rat \<Rightarrow> bool \<Rightarrow> node list \<Rightarrow> (bool \<times> node) list" where
  "prune_siblings coef forced contents =
     (let childs = find_all_True contents;
          density = calc_density childs;
          avg = threshold coef density
      in decompose_loop avg forced density (mark_keys [] contents))"

text \<open>Loops whose body may fail to return: the first failure ends the loop.\<close>

fun map_opt :: "('a \<Rightarrow> 'b option) \<Rightarrow> 'a list \<Rightarrow> 'b list option" where
  "map_opt f [] = Some []"
| "map_opt f (x # xs) =
     (case f x of None \<Rightarrow> None
      | Some y \<Rightarrow> (case map_opt f xs of None \<Rightarrow> None | Some ys \<Rightarrow> Some (y # ys)))"

fun repeat_opt :: "nat \<Rightarrow> ('a \<Rightarrow> 'a option) \<Rightarrow> 'a \<Rightarrow> 'a option" where
  "repeat_opt 0 f x = Some x"
| "repeat_opt (Suc k) f x = (case f x of None \<Rightarrow> None | Some y \<Rightarrow> repeat_opt k f y)"

text \<open>
  The body of the outer loop of \<open>main_content\<close> for one node of the dictionary it was
  given: prune the node's children, then call \<open>main_content\<close> on the new dictionary once
  for every key of it (\<open>for node in density.keys(): self.main_content(density, ...)\<close>;
  the decomposed keys are still counted, and a decomposed node has no children left to
  work on). \<open>recur\<close> is that recursive call; it works on the key objects and leaves the
  other children alone.
\<close>

definition prune_children ::
  "((bool \<times> node) list \<Rightarrow> (bool \<times> node) list option) \<Rightarrow> rat \<Rightarrow> bool \<Rightarrow> node \<Rightarrow> node option" where
  "prune_children recur coef forced nd =
     (case nd of
        NavigableString s \<Rightarrow> Some nd
      | Tag name attrs contents \<Rightarrow>
          map_option (\<lambda>sibs. Tag name attrs (map snd sibs))
            (repeat_opt (length (calc_density (find_all_True contents))) recur
               (prune_siblings coef forced contents)))"

text \<open>
  \<open>main_content\<close> called with a dictionary. The first argument bounds the nesting of
  the recursive calls: a call made when the bound is used up does not return (\<open>None\<close>).
  The argument \<open>sibs\<close> is the contents of the parent of the dictionary's keys, with the
  keys marked.
\<close>

primrec main_content_rec ::
  "nat \<Rightarrow> rat \<Rightarrow> bool \<Rightarrow> (bool \<times> node) list \<Rightarrow> (bool \<times> node) list option" where
  "main_content_rec 0 coef forced sibs = None"
| "main_content_rec (Suc n) coef forced sibs =
     map_opt (\<lambda>(k, nd).
        if k then map_option (Pair True) (prune_children (main_content_rec n coef forced) coef forced nd)
        else Some (k, nd)) sibs"

text \<open>
  \<open>main_content(soup=soup, forced=forced)\<close>: with \<open>density\<close> absent the dictionary of the
  soup's own child tags is built, \<open>main_content\<close> is called on it, and then the outer
  loop of this very call runs over the same dictionary once more. \<open>soup\<close> is a
  \<open>BeautifulSoup\<close> object, a tag; a string has no \<open>find_all\<close> and yields no tree.
\<close>

fun main_content :: "nat \<Rightarrow> rat \<Rightarrow> bool \<Rightarrow> node \<Rightarrow> node option" where
  "main_content n coef forced (Tag name attrs contents) =
     (case main_content_rec n coef forced (mark_keys [] contents) of
        None \<Rightarrow> None
      | Some once \<Rightarrow>
          (case main_content_rec n coef forced once of
             None \<Rightarrow> None
           | Some twice \<Rightarrow> Some (Tag name attrs (map snd twice))))"
| "main_content n coef forced (NavigableString s) = None"

text \<open>
  What a single \<open>decompose\<close> does to the tree: somewhere in it, one child tag that is
  not exempt at that moment leaves its parent's contents together with its subtree.
\<close>

inductive decompose_step :: "bool \<Rightarrow> node \<Rightarrow> node \<Rightarrow> bool" for forced :: bool where
  here: "is_tag d \<Longrightarrow> \<not> exempt forced d \<Longrightarrow>
           decompose_step forced (Tag name attrs (xs @ d # ys)) (Tag name attrs (xs @ ys))"
| below: "decompose_step forced c c' \<Longrightarrow>
           decompose_step forced (Tag name attrs (xs @ c # ys)) (Tag name attrs (xs @ c' # ys))"

text \<open>Relations between a marked sibling before and after a call.\<close>

definition depth_le :: "bool \<times> node \<Rightarrow> bool \<times> node \<Rightarrow> bool" where
  "depth_le a b = (fst b = fst a \<and> calc_depth (snd b) \<le> calc_depth (snd a))"

definition steps_pair :: "bool \<Rightarrow> bool \<times> node \<Rightarrow> bool \<times> node \<Rightarrow> bool" where
  "steps_pair forced a b = (fst b = fst a \<and> (decompose_step forced)\<^sup>*\<^sup>* (snd a) (snd b))"

section \<open>Formatter: the domain of the page\<close>

text \<open>\<open>sub in s\<close> on Python strings.\<close>

fun contains :: "string \<Rightarrow> string \<Rightarrow> bool" where
  "contains sub [] = (sub = [])"
| "contains sub (c # cs) = (take (length sub) (c # cs) = sub \<or> contains sub cs)"

text \<open>
  \<open>s.split(sep)\<close> for a non-empty separator: the occurrences of \<open>sep\<close> are found from
  the left and do not overlap. The program only splits at \<open>'//'\<close> and \<open>'/'\<close>.
\<close>

function split_acc :: "string \<Rightarrow> string \<Rightarrow> string \<Rightarrow> string list" where
  "split_acc sep acc s =
     (if s = [] then [acc]
      else if sep \<noteq> [] \<and> take (length sep) s = sep
        then acc # split_acc sep [] (drop (length sep) s)
      else split_acc sep (acc @ [hd s]) (tl s))"
  by pat_completeness auto
termination
  by (relation "measure (\<lambda>(sep, acc, s). length s)") auto

declare split_acc.simps [simp del]

definition py_split :: "string \<Rightarrow> string \<Rightarrow> string list" where
  "py_split sep s = split_acc sep [] s"

text \<open>
  \<open>re.match(r'http(s)?://', url)\<close>: the pattern is anchored at the start of the URL;
  \<open>.group()\<close> is the matched prefix, and \<open>None.group()\<close> raises \<open>AttributeError\<close>.
\<close>

definition match_scheme :: "string \<Rightarrow> string option" where
  "match_scheme url =
     (if take 8 url = ''https://'' then Some ''https://''
      else if take 7 url = ''http://'' then Some ''http://''
      else None)"

definition domain_name :: "string \<Rightarrow> error + string" where
  "domain_name url =
     (case match_scheme url of
        None \<Rightarrow> Inl AttributeError
      | Some g \<Rightarrow> Inr (g @ hd (py_split ''/'' (last (py_split ''//'' url)))))"

section \<open>Formatter: strings\<close>

text \<open>
  Python strings are modelled as lists of 8-bit characters, that is, with the first 256
  code points. \<open>isspace\<close> is \<open>str.isspace\<close> and the class \<open>\s\<close> of the \<open>re\<close> module
  on them; \<open>isword\<close> is the class \<open>\w\<close> (alphanumeric characters and the underscore).
\<close>

abbreviation newline :: char where
  "newline \<equiv> CHR 0x0A"

definition isspace :: "char \<Rightarrow> bool" where
  "isspace c = ((of_char c :: nat) \<in> {9, 10, 11, 12, 13, 28, 29, 30, 31, 32, 133, 160})"

definition isword :: "char \<Rightarrow> bool" where
  "isword c =
     (let n = (of_char c :: nat) in
        (48 \<le> n \<and> n \<le> 57) \<or> (65 \<le> n \<and> n \<le> 90) \<or> n = 95 \<or> (97 \<le> n \<and> n \<le> 122) \<or>
        n = 170 \<or> n = 178 \<or> n = 179 \<or> n = 181 \<or> n = 185 \<or> n = 186 \<or>
        (188 \<le> n \<and> n \<le> 190) \<or> (192 \<le> n \<and> n \<le> 214) \<or> (216 \<le> n \<and> n \<le> 246) \<or>
        (248 \<le> n \<and> n \<le> 255))"

definition lstrip :: "string \<Rightarrow> string" where
  "lstrip s = dropWhile isspace s"

definition strip :: "string \<Rightarrow> string" where
  "strip s = rev (dropWhile isspace (rev (dropWhile isspace s)))"

text \<open>
  \<open>s.replace(old, new)\<close> without a count: every occurrence of \<open>old\<close>, found from the left
  and not overlapping, is replaced; for an empty \<open>old\<close>, \<open>new\<close> is put before every
  character and at the end.
\<close>

fun replace_nonempty :: "string \<Rightarrow> string \<Rightarrow> string \<Rightarrow> string" where
  "replace_nonempty old new [] = []"
| "replace_nonempty old new (c # cs) =
     (if take (length old) (c # cs) = old
      then new @ replace_nonempty old new (drop (length old - 1) cs)
      else c # replace_nonempty old new cs)"

definition py_replace :: "string \<Rightarrow> string \<Rightarrow> string \<Rightarrow> string" where
  "py_replace old new s =
     (if old = [] then new @ concat (map (\<lambda>c. c # new) s) else replace_nonempty old new s)"

text \<open>
  What the specification describes instead, a replacement of the first occurrence
  only (\<open>s.replace(old, new, 1)\<close>).
\<close>

fun replace_first :: "string \<Rightarrow> string \<Rightarrow> string \<Rightarrow> string" where
  "replace_first old new [] = (if old = [] then new else [])"
| "replace_first old new (c # cs) =
     (if take (length old) (c # cs) = old then new @ drop (length old) (c # cs)
      else c # replace_first old new cs)"

text \<open>The lines of a text: the pieces between line breaks.\<close>

fun split_lines :: "string \<Rightarrow> string list" where
  "split_lines [] = [[]]"
| "split_lines (c # cs) =
     (if c = newline then [] # split_lines cs
      else (c # hd (split_lines cs)) # tl (split_lines cs))"

section \<open>Formatter: links\<close>

text \<open>
  \<open>url['href']\<close> is \<open>Tag.__getitem__\<close>, a lookup in the attribute dictionary that
  raises \<open>KeyError\<close> when the attribute is absent. \<open>find_all('a')\<close> yields tags only.
\<close>

fun href_of :: "node \<Rightarrow> string option" where
  "href_of (Tag name attrs contents) = fmlookup attrs ''href''"
| "href_of (NavigableString s) = None"

text \<open>
  \<open>_get_urls\<close>. The test \<open>("http" or "htpps") not in url['href']\<close> is
  \<open>"http" not in url['href']\<close>. The result dictionary keeps the order of first
  insertion; a later entry with the same key replaces the value.
\<close>

fun get_urls_loop ::
  "string \<Rightarrow> node list \<Rightarrow> (string \<times> string) list \<Rightarrow> error + (string \<times> string) list" where
  "get_urls_loop domain [] r_urls = Inr r_urls"
| "get_urls_loop domain (url # urls) r_urls =
     (case href_of url of
        None \<Rightarrow> Inl KeyError
      | Some h \<Rightarrow>
          (let href = (if \<not> contains ''http'' h then ''['' @ domain @ h @ '']''
                       else ''['' @ h @ '']'')
           in get_urls_loop domain urls (AList.update href (get_text url) r_urls)))"

definition get_urls :: "node list \<Rightarrow> string \<Rightarrow> error + (string \<times> string) list" where
  "get_urls urls domain =
     (case domain_name domain of
        Inl e \<Rightarrow> Inl e
      | Inr d \<Rightarrow> get_urls_loop d urls [])"

text \<open>
  \<open>_add_urls\<close>: for every entry, \<open>re.sub(text_of_anchor, text_of_anchor + ' ' + url, text)\<close>.
  The anchor's text is used as a regular expression; \<open>re.sub\<close> is a function of the
  library and is a parameter here, which may raise (\<open>re.error\<close>).
\<close>

fun add_urls ::
  "(string \<Rightarrow> string \<Rightarrow> string \<Rightarrow> error + string) \<Rightarrow> string \<Rightarrow> (string \<times> string) list \<Rightarrow>
   error + string" where
  "add_urls re_sub text [] = Inr text"
| "add_urls re_sub text ((url, anchor) # rest) =
     (case re_sub anchor (anchor @ '' '' @ url) text of
        Inl e \<Rightarrow> Inl e
      | Inr text' \<Rightarrow> add_urls re_sub text' rest)"

section \<open>Formatter: paragraphs and reflow\<close>

text \<open>
  The paragraph loop of \<open>prepare_text\<close>, over the texts \<open>p.text\<close> of the paragraphs: a
  paragraph whose text is the empty string is skipped; otherwise
  \<open>string.replace(p.text.strip(), '\n' + p.text.strip() + '\n')\<close>.
\<close>

fun wrap_paragraphs :: "string \<Rightarrow> string list \<Rightarrow> string" where
  "wrap_paragraphs string [] = string"
| "wrap_paragraphs string (t # ts) =
     (if t = [] then wrap_paragraphs string ts
      else wrap_paragraphs (py_replace (strip t) (newline # strip t @ [newline]) string) ts)"

text \<open>
  \<open>re.findall(r"(\[(https?://[^\s]+)\]|[\w]+|[\s.,!?;\()-])", text)\<close>, first component
  of every match. At a position the alternatives are tried in order. The first is a
  bracket, \<open>http://\<close> or \<open>https://\<close>, one or more characters that are not white space and
  a closing bracket; the greedy run gives back characters until a closing bracket
  follows, so the match ends at the last closing bracket of the run that has a character
  of the run before it. The second is a longest run of word characters, the third a
  single white-space or punctuation character. Where none matches the character is
  skipped.
\<close>

definition bracket_body :: "string \<Rightarrow> nat option" where
  "bracket_body rest =
     (let run = takeWhile (\<lambda>c. \<not> isspace c) rest;
          after = length (takeWhile (\<lambda>c. c \<noteq> CHR '']'') (rev run))
      in if after + 1 < length run then Some (length run - after) else None)"

definition match_bracket :: "string \<Rightarrow> nat option" where
  "match_bracket s =
     (if take 9 s = ''[https://'' then map_option (\<lambda>n. 9 + n) (bracket_body (drop 9 s))
      else if take 8 s = ''[http://'' then map_option (\<lambda>n. 8 + n) (bracket_body (drop 8 s))
      else None)"

definition ispunct :: "char \<Rightarrow> bool" where
  "ispunct c = (isspace c \<or> c \<in> set ''.,!?;()-'')"

function findall :: "string \<Rightarrow> string list" where
  "findall [] = []"
| "findall (c # cs) =
     (case match_bracket (c # cs) of
        Some n \<Rightarrow> take n (c # cs) # findall (drop (n - 1) cs)
      | None \<Rightarrow>
          if isword c then (c # takeWhile isword cs) # findall (dropWhile isword cs)
          else if ispunct c then [c] # findall cs
          else findall cs)"
  by pat_completeness auto
termination
  by (relation "measure length") (auto simp: length_dropWhile_le less_Suc_eq_le)

text \<open>
  The wrapping loop of \<open>prepare_text\<close>, one word at a time, on the pair of
  \<open>new_string\<close> and \<open>length\<close>. The test for a line break is an \<open>if\<close> of its own, followed
  by the \<open>if/elif/else\<close> on the length.
\<close>

definition wrap_step :: "nat \<Rightarrow> string \<times> nat \<Rightarrow> string \<Rightarrow> string \<times> nat" where
  "wrap_step max_length st word =
     (let new_string = fst st;
          len = snd st;
          w = (if len = 1 then lstrip word else word);
          len = len + length word;
          new_string = (if w = [newline] then new_string @ [newline] else new_string);
          len = (if w = [newline] then 1 else len)
      in if len > max_length then (new_string @ [newline] @ w, length w + 1)
         else if len = max_length then (new_string @ w @ [newline], 1)
         else (new_string @ w, len))"

definition wrap_words :: "nat \<Rightarrow> string list \<Rightarrow> string" where
  "wrap_words max_length sp2 = fst (foldl (wrap_step max_length) ([], 1) sp2)"

definition reflow :: "nat \<Rightarrow> string \<Rightarrow> string" where
  "reflow max_length text_with_urls =
     py_replace [newline, newline, newline] [newline] (wrap_words max_length (findall text_with_urls))"

text \<open>
  For the analysis of the wrapping loop: a finished line is in order when it is at most
  \<open>m\<close> characters long or is one of the words; the loop keeps every line in order and
  its counter above the length of the current line. A word is in order when a line
  break occurs in it only as the word that is a single line break, and stripping white
  space on the left leaves it as it is or empties it.
\<close>

definition line_ok :: "nat \<Rightarrow> string set \<Rightarrow> string \<Rightarrow> bool" where
  "line_ok m T l = (length l \<le> m \<or> l \<in> T)"

definition wrap_inv :: "nat \<Rightarrow> string set \<Rightarrow> string \<times> nat \<Rightarrow> bool" where
  "wrap_inv m T st =
     (list_all (line_ok m T) (split_lines (fst st)) \<and>
      length (last (split_lines (fst st))) + 1 \<le> snd st)"

definition tok_ok :: "string \<Rightarrow> bool" where
  "tok_ok t = ((t = [newline] \<or> newline \<notin> set t) \<and> (lstrip t = t \<or> lstrip t = []))"

text \<open>
  \<open>prepare_text\<close> as a whole. \<open>string.replace(r'\s+', ' ')\<close> replaces the three
  characters backslash, \<open>s\<close>, \<open>+\<close>, not white space.
\<close>

definition prepare_text ::
  "(string \<Rightarrow> string \<Rightarrow> string \<Rightarrow> error + string) \<Rightarrow> nat \<Rightarrow> string \<Rightarrow> node \<Rightarrow> error + string" where
  "prepare_text re_sub max_length domain soup =
     (let paragr = find_all ''p'' soup;
          urls = find_all ''a'' soup;
          string = get_text soup;
          string = py_replace [newline] [] string;
          string = strip string;
          string = py_replace [CHR 0x5C, CHR ''s'', CHR ''+''] '' '' string;
          string = wrap_paragraphs string (map get_text paragr)
      in case get_urls urls domain of
           Inl e \<Rightarrow> Inl e
         | Inr prepared_urls \<Rightarrow>
             (case add_urls re_sub string prepared_urls of
                Inl e \<Rightarrow> Inl e
              | Inr text_with_urls \<Rightarrow> Inr (reflow max_length text_with_urls)))"

section \<open>Parser: preprocessing\<close>

text \<open>
  Each pattern of \<open>Configuration.pre_processing\<close> has the shape of an opening literal,
  \<open>.*?\<close> and a closing literal. The trailing \<open>(?s)\<close> is read as the flag that lets the
  dot match a line break, for the whole pattern (as Python up to 3.10 reads it); the
  \<open>meta\<close> pattern does not have it. The back reference \<open>\1\<close> stands for the tag name in
  the raw strings. The \<open>ul\<close> pattern is not a raw string, and there \<open>'\1'\<close> is the
  character with code 1.
\<close>

datatype pattern = Pattern string string bool

definition pre_processing :: "pattern list" where
  "pre_processing =
     [Pattern ''<script'' ''</script>'' True,
      Pattern ''<style'' ''</style>'' True,
      Pattern ''<meta'' ''>'' False,
      Pattern ''<ul'' [CHR ''<'', CHR ''/'', CHR 0x01, CHR ''>''] True,
      Pattern ''<nav'' ''</nav>'' True,
      Pattern ''<footer'' ''</footer>'' True,
      Pattern ''<header'' ''</header>'' True,
      Pattern ''<form'' ''</form>'' True]"

text \<open>
  The lazy \<open>.*?\<close> followed by the closing literal: the closing literal is tried at every
  position in turn, and the dot steps over one character, a line break only with the
  flag. The result is the number of characters up to the end of the closing literal.
\<close>

fun close_at :: "string \<Rightarrow> bool \<Rightarrow> string \<Rightarrow> nat option" where
  "close_at close dotall [] = (if close = [] then Some 0 else None)"
| "close_at close dotall (c # cs) =
     (if take (length close) (c # cs) = close then Some (length close)
      else if \<not> dotall \<and> c = newline then None
      else map_option Suc (close_at close dotall cs))"

fun match_len :: "pattern \<Rightarrow> string \<Rightarrow> nat option" where
  "match_len (Pattern opening close dotall) s =
     (if take (length opening) s = opening
      then map_option (\<lambda>n. length opening + n) (close_at close dotall (drop (length opening) s))
      else None)"

text \<open>\<open>re.subn(pattern, '', html)[0]\<close>: the matches are found from the left and removed.\<close>

fun subn :: "pattern \<Rightarrow> string \<Rightarrow> string" where
  "subn p [] = []"
| "subn p (c # cs) =
     (case match_len p (c # cs) of
        Some n \<Rightarrow> subn p (drop (n - 1) cs)
      | None \<Rightarrow> c # subn p cs)"

definition prepocess :: "pattern list \<Rightarrow> string \<Rightarrow> string" where
  "prepocess patterns html = foldl (\<lambda>html pattern. subn pattern html) html patterns"

section \<open>Properties of the depth\<close>

lemma calc_depth_leaf: "calc_depth (Tag name attrs []) = 0"
  by simp

lemma calc_depth_string: "\<not> is_tag c \<Longrightarrow> calc_depth c = 0"
  by (cases c) auto

lemma Max_depth_tags:
  assumes "find_all_True contents \<noteq> []"
  shows "Max (calc_depth ` set contents) = Max (calc_depth ` set (find_all_True contents))"
proof (rule Max_eqI)
  show "finite (calc_depth ` set contents)" by simp
next
  fix y assume "y \<in> calc_depth ` set contents"
  then obtain c where c: "c \<in> set contents" "y = calc_depth c" by auto
  show "y \<le> Max (calc_depth ` set (find_all_True contents))"
  proof (cases "is_tag c")
    case True
    with c have "y \<in> calc_depth ` set (find_all_True contents)" by (simp add: find_all_True_def)
    then show ?thesis by (intro Max_ge) auto
  next
    case False
    with c show ?thesis by (simp add: calc_depth_string)
  qed
next
  have "Max (calc_depth ` set (find_all_True contents)) \<in> calc_depth ` set (find_all_True contents)"
    using assms by (intro Max_in) auto
  then show "Max (calc_depth ` set (find_all_True contents)) \<in> calc_depth ` set contents"
    by (auto simp: find_all_True_def)
qed

lemma depth_text_only:
  assumes "contents \<noteq> []" "find_all_True contents = []"
  shows "calc_depth (Tag name attrs contents) = 1"
proof -
  from assms(2) have "\<forall>c\<in>set contents. calc_depth c = 0"
    by (auto simp: find_all_True_def filter_empty_conv calc_depth_string)
  then have "calc_depth ` set contents = {0}" using assms(1) by (cases contents) auto
  with assms(1) show ?thesis by simp
qed

text \<open>
  C3, as the code has it. A string and a tag without children have depth 0; a tag with
  children is one deeper than the deepest of all its children, text children included.
  When there are child tags the deepest child is one of them, so the depth is one more
  than the maximum over the child tags; a tag whose children are all strings has
  depth 1.
\<close>

theorem calc_depth_all_children:
  "calc_depth (NavigableString s) = 0 \<and>
   calc_depth (Tag name attrs []) = 0 \<and>
   (contents \<noteq> [] \<longrightarrow>
      calc_depth (Tag name attrs contents) = 1 + Max (calc_depth ` set contents)) \<and>
   (find_all_True contents \<noteq> [] \<longrightarrow>
      calc_depth (Tag name attrs contents) = 1 + Max (calc_depth ` set (find_all_True contents))) \<and>
   (contents \<noteq> [] \<and> find_all_True contents = [] \<longrightarrow> calc_depth (Tag name attrs contents) = 1)"
proof -
  have "find_all_True contents \<noteq> [] \<Longrightarrow> contents \<noteq> []" by (auto simp: find_all_True_def)
  then show ?thesis using Max_depth_tags [of contents] depth_text_only [of contents name attrs]
    by auto
qed

theorem calc_depth_all_children_witness:
  "[NavigableString ''Skip''] \<noteq> [] \<and> find_all_True [NavigableString ''Skip''] = [] \<and>
   calc_depth (Tag ''nav'' fmempty [NavigableString ''Skip'']) = 1 \<and>
   find_all_True [NavigableString ''a'', Tag ''p'' fmempty [NavigableString ''x'']] \<noteq> [] \<and>
   calc_depth (Tag ''div'' fmempty [NavigableString ''a'', Tag ''p'' fmempty [NavigableString ''x'']]) =
     1 + Max (calc_depth ` set (find_all_True [NavigableString ''a'', Tag ''p'' fmempty [NavigableString ''x'']]))"
  using calc_depth_all_children [of _ "''nav''" fmempty "[NavigableString ''Skip'']"]
    calc_depth_all_children [of _ "''div''" fmempty "[NavigableString ''a'', Tag ''p'' fmempty [NavigableString ''x'']]"]
  by (simp add: find_all_True_def)

text \<open>
  The claim's reading fails on a text-only element: \<open><nav>Skip</nav>\<close> has no element
  child and yet depth 1, because its text child is counted.
\<close>

theorem calc_depth_text_only_counterexample:
  "find_all_True [NavigableString ''Skip''] = [] \<and>
   calc_depth (Tag ''nav'' fmempty [NavigableString ''Skip'']) = 1"
  by (simp add: find_all_True_def)

section \<open>Properties of the pruning recursion\<close>

subsection \<open>The density dictionary and its keys\<close>

lemma is_tag_key: "(True, c) \<in> set (mark_keys seen cs) \<Longrightarrow> is_tag c"
  by (induction cs arbitrary: seen) (auto split: if_splits)

lemma map_of_foldl_update:
  "map_of (foldl (\<lambda>d nd. AList.update nd (calc_depth nd) d) d0 nodes) x =
     (if x \<in> set nodes then Some (calc_depth x) else map_of d0 x)"
  by (induction nodes arbitrary: d0) (auto simp: update_conv')

lemma density_entry: "map_of (calc_density nodes) x = (if x \<in> set nodes then Some (calc_depth x) else None)"
  by (simp add: calc_density_def map_of_foldl_update)

lemma key_is_child: "(k, c) \<in> set (mark_keys seen cs) \<Longrightarrow> c \<in> set cs"
  by (induction cs arbitrary: seen) (auto split: if_splits)

lemma density_entry_of_key:
  "(True, c) \<in> set (mark_keys [] contents) \<Longrightarrow>
   map_of (calc_density (find_all_True contents)) c = Some (calc_depth c)"
  using is_tag_key [of c "[]" contents] key_is_child [of True c "[]" contents]
  by (simp add: density_entry find_all_True_def)

lemma prune_siblings_key:
  assumes "(True, c) \<in> set (mark_keys [] contents)"
  shows "(True, c) \<in> set (prune_siblings coef forced contents) \<longleftrightarrow>
     exempt forced c \<or> \<not> of_nat (calc_depth c) < threshold coef (calc_density (find_all_True contents))"
  using assms density_entry_of_key [OF assms]
  by (auto simp: prune_siblings_def decompose_loop_def Let_def)

lemma prune_siblings_not_key:
  "(False, c) \<in> set (mark_keys [] contents) \<Longrightarrow> (False, c) \<in> set (prune_siblings coef forced contents)"
  by (auto simp: prune_siblings_def decompose_loop_def Let_def)


text \<open>
  The keys of the dictionary, in order, are the marked children, and its number of
  entries is the number of runs of the recursive call.
\<close>

lemma keys_foldl_update:
  "set seen = fst ` set d0 \<Longrightarrow>
   map fst (foldl (\<lambda>d nd. AList.update nd (calc_depth nd) d) d0 (filter is_tag cs)) =
   map fst d0 @ map snd (filter fst (mark_keys seen cs))"
proof (induction cs arbitrary: d0 seen)
  case Nil
  then show ?case by simp
next
  case (Cons c cs)
  show ?case
  proof (cases "is_tag c \<and> c \<notin> set seen")
    case True
    then have k: "map fst (AList.update c (calc_depth c) d0) = map fst d0 @ [c]"
      using Cons.prems by (simp add: update_keys image_iff)
    have "set (c # seen) = fst ` set (AList.update c (calc_depth c) d0)"
      using k Cons.prems by (metis (no_types, lifting) list.set_map set_append list.simps(15) Un_insert_right
          sup_bot.right_neutral empty_set insert_is_Un Un_commute)
    from Cons.IH [OF this] True k show ?thesis by simp
  next
    case False
    show ?thesis
    proof (cases "is_tag c")
      case True
      with False have "c \<in> fst ` set d0" using Cons.prems by simp
      then have k: "map fst (AList.update c (calc_depth c) d0) = map fst d0"
        by (simp add: update_keys)
      then have "set seen = fst ` set (AList.update c (calc_depth c) d0)"
        using Cons.prems by (metis list.set_map)
      from Cons.IH [OF this] True False k show ?thesis by simp
    next
      case nt: False
      with Cons.IH [OF Cons.prems] show ?thesis by simp
    qed
  qed
qed

lemma density_keys: "map fst (calc_density (find_all_True contents)) = map snd (filter fst (mark_keys [] contents))"
  using keys_foldl_update [of "[]" "[]" contents] by (simp add: calc_density_def find_all_True_def)

subsection \<open>The recursion returns\<close>

lemma map_snd_mark_keys: "map snd (mark_keys seen cs) = cs"
  by (induction cs arbitrary: seen) auto

lemma set_prune_siblings: "p \<in> set (prune_siblings coef forced contents) \<Longrightarrow> snd p \<in> set contents"
proof -
  assume "p \<in> set (prune_siblings coef forced contents)"
  then have "p \<in> set (mark_keys [] contents)"
    by (simp add: prune_siblings_def decompose_loop_def Let_def)
  then have "snd p \<in> set (map snd (mark_keys [] contents))"
    by force
  then show ?thesis by (simp add: map_snd_mark_keys)
qed

lemma calc_depth_child: "c \<in> set contents \<Longrightarrow> calc_depth c < calc_depth (Tag name attrs contents)"
proof -
  assume c: "c \<in> set contents"
  then have "calc_depth c \<le> Max (calc_depth ` set contents)"
    by (intro Max_ge) auto
  then have "calc_depth c < Suc (Max (calc_depth ` set contents))"
    by (rule le_imp_less_Suc)
  with c show ?thesis by auto
qed

lemma calc_depth_shrink:
  assumes "\<And>c. c \<in> set cs' \<Longrightarrow> \<exists>c0\<in>set cs. calc_depth c \<le> calc_depth c0"
  shows "calc_depth (Tag name attrs cs') \<le> calc_depth (Tag name' attrs' cs)"
proof (cases "cs' = []")
  case True
  then show ?thesis by simp
next
  case False
  then obtain c where "c \<in> set cs'" by (cases cs') auto
  with assms have ne: "cs \<noteq> []" by fastforce
  have "Max (set (map calc_depth cs')) \<le> Max (set (map calc_depth cs))"
  proof (rule Max.boundedI)
    show "finite (set (map calc_depth cs'))" by simp
    show "set (map calc_depth cs') \<noteq> {}" using False by simp
    fix d assume "d \<in> set (map calc_depth cs')"
    then obtain c where c: "c \<in> set cs'" "d = calc_depth c" by auto
    with assms obtain c0 where c0: "c0 \<in> set cs" "calc_depth c \<le> calc_depth c0" by blast
    then have "calc_depth c0 \<le> Max (set (map calc_depth cs))" by (intro Max_ge) auto
    with c0(2) have "calc_depth c \<le> Max (set (map calc_depth cs))" by (rule le_trans)
    with c(2) show "d \<le> Max (set (map calc_depth cs))" by (simp only:)
  qed
  with False ne show ?thesis by simp
qed

lemma map_opt_returns:
  "(\<And>x. x \<in> set xs \<Longrightarrow> \<exists>y. f x = Some y \<and> Q x y) \<Longrightarrow>
   \<exists>ys. map_opt f xs = Some ys \<and> list_all2 Q xs ys"
proof (induction xs)
  case Nil
  then show ?case by simp
next
  case (Cons x xs)
  then obtain y where y: "f x = Some y" "Q x y" by fastforce
  from Cons obtain ys where ys: "map_opt f xs = Some ys" "list_all2 Q xs ys" by fastforce
  from y ys show ?case by simp
qed

lemma repeat_opt_returns:
  "I x \<Longrightarrow> (\<And>u. I u \<Longrightarrow> \<exists>v. f u = Some v \<and> I v) \<Longrightarrow> \<exists>y. repeat_opt k f x = Some y \<and> I y"
proof (induction k arbitrary: x)
  case 0
  then show ?case by simp
next
  case (Suc k)
  from Suc.prems obtain v where v: "f x = Some v" "I v" by blast
  from Suc.IH [OF v(2) Suc.prems(2)] obtain y where "repeat_opt k f v = Some y" "I y" by blast
  with v show ?case by simp
qed

lemma depth_le_refl: "list_all2 depth_le xs xs"
  by (simp add: list_all2_refl depth_le_def)

lemma depth_le_trans:
  "list_all2 depth_le xs ys \<Longrightarrow> list_all2 depth_le ys zs \<Longrightarrow> list_all2 depth_le xs zs"
  using list_all2_trans [of depth_le depth_le depth_le xs ys zs] by (auto simp: depth_le_def)

lemma depth_le_bound:
  "list_all2 depth_le xs ys \<Longrightarrow> \<forall>p\<in>set xs. calc_depth (snd p) \<le> m \<Longrightarrow> \<forall>p\<in>set ys. calc_depth (snd p) \<le> m"
  by (induction rule: list_all2_induct) (auto simp: depth_le_def)

lemma depth_le_member:
  "list_all2 depth_le xs ys \<Longrightarrow> q \<in> set ys \<Longrightarrow> \<exists>p\<in>set xs. calc_depth (snd q) \<le> calc_depth (snd p)"
  by (induction rule: list_all2_induct) (auto simp: depth_le_def)

lemma prune_children_returns:
  assumes d: "calc_depth nd \<le> n"
    and ih: "\<And>m sibs. n = Suc m \<Longrightarrow> \<forall>p\<in>set sibs. calc_depth (snd p) \<le> m \<Longrightarrow>
              \<exists>out. main_content_rec n coef forced sibs = Some out \<and> list_all2 depth_le sibs out"
  shows "\<exists>nd'. prune_children (main_content_rec n coef forced) coef forced nd = Some nd' \<and>
           calc_depth nd' \<le> calc_depth nd"
proof (cases nd)
  case (NavigableString s)
  then show ?thesis by (simp add: prune_children_def)
next
  case (Tag name attrs contents)
  let ?kept = "prune_siblings coef forced contents"
  let ?k = "length (calc_density (find_all_True contents))"
  have "\<exists>y. repeat_opt ?k (main_content_rec n coef forced) ?kept = Some y \<and> list_all2 depth_le ?kept y"
  proof (cases "contents = []")
    case True
    then show ?thesis
      by (simp add: find_all_True_def calc_density_def prune_siblings_def decompose_loop_def)
  next
    case False
    with d Tag obtain m where m: "n = Suc m" by (cases n) auto
    have cm: "\<forall>c\<in>set contents. calc_depth c \<le> m"
      using calc_depth_child [of _ contents name attrs] d Tag m by fastforce
    have km: "\<forall>p\<in>set ?kept. calc_depth (snd p) \<le> m"
      using cm set_prune_siblings by blast
    show ?thesis
    proof (rule repeat_opt_returns [where I = "\<lambda>y. list_all2 depth_le ?kept y"])
      show "list_all2 depth_le ?kept ?kept" by (rule depth_le_refl)
    next
      fix u assume u: "list_all2 depth_le ?kept u"
      then have "\<forall>p\<in>set u. calc_depth (snd p) \<le> m" using km by (rule depth_le_bound)
      from ih [OF m this] obtain out where
        "main_content_rec n coef forced u = Some out" "list_all2 depth_le u out" by blast
      with u show "\<exists>v. main_content_rec n coef forced u = Some v \<and> list_all2 depth_le ?kept v"
        using depth_le_trans by blast
    qed
  qed
  then obtain y where y: "repeat_opt ?k (main_content_rec n coef forced) ?kept = Some y"
    "list_all2 depth_le ?kept y" by blast
  have "calc_depth (Tag name attrs (map snd y)) \<le> calc_depth (Tag name attrs contents)"
  proof (rule calc_depth_shrink)
    fix c assume "c \<in> set (map snd y)"
    then obtain q where q: "q \<in> set y" "c = snd q" by auto
    from depth_le_member [OF y(2) q(1)] obtain p where
      p: "p \<in> set ?kept" "calc_depth (snd q) \<le> calc_depth (snd p)" by blast
    from p(1) have "snd p \<in> set contents" by (rule set_prune_siblings)
    with p q show "\<exists>c0\<in>set contents. calc_depth c \<le> calc_depth c0" by blast
  qed
  with y Tag show ?thesis by (simp add: prune_children_def)
qed

lemma main_content_rec_returns:
  "\<forall>p\<in>set sibs. calc_depth (snd p) \<le> n \<Longrightarrow>
   \<exists>out. main_content_rec (Suc n) coef forced sibs = Some out \<and> list_all2 depth_le sibs out"
proof (induction n arbitrary: sibs rule: less_induct)
  case (less n)
  have "\<exists>ys. map_opt (\<lambda>(k, nd).
        if k then map_option (Pair True) (prune_children (main_content_rec n coef forced) coef forced nd)
        else Some (k, nd)) sibs = Some ys \<and> list_all2 depth_le sibs ys"
  proof (rule map_opt_returns)
    fix x assume x: "x \<in> set sibs"
    obtain k nd where knd: "x = (k, nd)" by (cases x)
    show "\<exists>y. (case x of (k, nd) \<Rightarrow>
            if k then map_option (Pair True) (prune_children (main_content_rec n coef forced) coef forced nd)
            else Some (k, nd)) = Some y \<and> depth_le x y"
    proof (cases k)
      case False
      with knd show ?thesis by (simp add: depth_le_def)
    next
      case True
      from x knd less.prems have d: "calc_depth nd \<le> n" by auto
      have "\<exists>nd'. prune_children (main_content_rec n coef forced) coef forced nd = Some nd' \<and>
           calc_depth nd' \<le> calc_depth nd"
        using d
      proof (rule prune_children_returns)
        fix m and sibs' :: "(bool \<times> node) list" assume "n = Suc m" "\<forall>p\<in>set sibs'. calc_depth (snd p) \<le> m"
        then show "\<exists>out. main_content_rec n coef forced sibs' = Some out \<and> list_all2 depth_le sibs' out"
          using less.IH [of m sibs'] by simp
      qed
      with True knd show ?thesis by (auto simp: depth_le_def)
    qed
  qed
  then show ?case by simp
qed

text \<open>A larger bound on the nesting of calls changes nothing in a result.\<close>

lemma map_opt_mono:
  "(\<And>x y. x \<in> set xs \<Longrightarrow> f x = Some y \<Longrightarrow> g x = Some y) \<Longrightarrow> map_opt f xs = Some ys \<Longrightarrow> map_opt g xs = Some ys"
  by (induction xs arbitrary: ys) (auto split: option.splits)

lemma repeat_opt_mono:
  "(\<And>x y. f x = Some y \<Longrightarrow> g x = Some y) \<Longrightarrow> repeat_opt k f x = Some y \<Longrightarrow> repeat_opt k g x = Some y"
  by (induction k arbitrary: x) (auto split: option.splits)

lemma main_content_rec_Suc:
  "main_content_rec n coef forced sibs = Some out \<Longrightarrow> main_content_rec (Suc n) coef forced sibs = Some out"
proof (induction n arbitrary: sibs out)
  case 0
  then show ?case by simp
next
  case (Suc n)
  have pc: "\<And>nd nd'. prune_children (main_content_rec n coef forced) coef forced nd = Some nd' \<Longrightarrow>
      prune_children (main_content_rec (Suc n) coef forced) coef forced nd = Some nd'"
  proof -
    fix nd nd' assume a: "prune_children (main_content_rec n coef forced) coef forced nd = Some nd'"
    show "prune_children (main_content_rec (Suc n) coef forced) coef forced nd = Some nd'"
    proof (cases nd)
      case (NavigableString s)
      with a show ?thesis by (auto simp: prune_children_def)
    next
      case (Tag name attrs contents)
      with a obtain z where z: "repeat_opt (length (calc_density (find_all_True contents)))
          (main_content_rec n coef forced) (prune_siblings coef forced contents) = Some z"
          "nd' = Tag name attrs (map snd z)"
        by (auto simp: prune_children_def)
      from repeat_opt_mono [where g = "main_content_rec (Suc n) coef forced", OF Suc.IH z(1)]
      have "repeat_opt (length (calc_density (find_all_True contents)))
          (main_content_rec (Suc n) coef forced) (prune_siblings coef forced contents) = Some z" .
      with z(2) Tag show ?thesis by (simp add: prune_children_def)
    qed
  qed
  from Suc.prems have "map_opt (\<lambda>(k, nd).
        if k then map_option (Pair True) (prune_children (main_content_rec n coef forced) coef forced nd)
        else Some (k, nd)) sibs = Some out" by simp
  then have "map_opt (\<lambda>(k, nd).
        if k then map_option (Pair True) (prune_children (main_content_rec (Suc n) coef forced) coef forced nd)
        else Some (k, nd)) sibs = Some out"
  proof (rule map_opt_mono [rotated])
    fix x y assume "x \<in> set sibs"
      and y: "(case x of (k, nd) \<Rightarrow>
        if k then map_option (Pair True) (prune_children (main_content_rec n coef forced) coef forced nd)
        else Some (k, nd)) = Some y"
    obtain k nd where x: "x = (k, nd)" by (cases x)
    show "(case x of (k, nd) \<Rightarrow>
        if k then map_option (Pair True) (prune_children (main_content_rec (Suc n) coef forced) coef forced nd)
        else Some (k, nd)) = Some y"
    proof (cases k)
      case True
      with x y obtain nd' where nd': "prune_children (main_content_rec n coef forced) coef forced nd = Some nd'"
        "y = (True, nd')" by auto
      from pc [OF nd'(1)] nd'(2) True x show ?thesis by (simp del: main_content_rec.simps)
    next
      case False
      with x y show ?thesis by auto
    qed
  qed
  then show ?case by simp
qed

lemma main_content_rec_mono:
  "n \<le> m \<Longrightarrow> main_content_rec n coef forced sibs = Some out \<Longrightarrow>
   main_content_rec m coef forced sibs = Some out"
proof (induction m)
  case 0
  then show ?case by simp
next
  case (Suc m)
  show ?case
  proof (cases "n \<le> m")
    case True
    then have "main_content_rec m coef forced sibs = Some out" using Suc.prems(2) by (rule Suc.IH)
    then show ?thesis by (rule main_content_rec_Suc)
  next
    case False
    with Suc.prems(1) have "n = Suc m" by simp
    with Suc.prems(2) show ?thesis by (simp only:)
  qed
qed

lemma main_content_bound_irrelevant:
  assumes "n \<le> m" and "main_content n coef forced soup = Some t"
  shows "main_content m coef forced soup = Some t"
proof -
  from assms(2) obtain name attrs contents where soup: "soup = Tag name attrs contents"
    by (cases soup) auto
  from assms(2) soup obtain once twice where o:
    "main_content_rec n coef forced (mark_keys [] contents) = Some once"
    "main_content_rec n coef forced once = Some twice" "t = Tag name attrs (map snd twice)"
    by (auto split: option.splits)
  from main_content_rec_mono [OF assms(1) o(1)] main_content_rec_mono [OF assms(1) o(2)] o(3) soup
  show ?thesis by simp
qed


text \<open>
  C5. On a finite tree \<open>main_content\<close> returns: any bound on the nesting of calls that
  exceeds the depth of the soup is enough. The recursion descends from a node to its
  children, each of strictly smaller depth, and for a node without child tags the new
  dictionary is empty and no recursive call is made (the node is returned even when
  the recursive call would never return).
\<close>

theorem main_content_terminates:
  "(is_tag soup \<and> calc_depth soup < n \<longrightarrow> (\<exists>t. main_content n coef forced soup = Some t)) \<and>
   (c \<in> set contents \<longrightarrow> calc_depth c < calc_depth (Tag name attrs contents)) \<and>
   (find_all_True contents = [] \<longrightarrow>
      prune_children (\<lambda>sibs. None) coef forced (Tag name attrs contents) = Some (Tag name attrs contents))"
proof (intro conjI impI)
  assume a: "is_tag soup \<and> calc_depth soup < n"
  then obtain nm at cs where soup: "soup = Tag nm at cs" by (cases soup) auto
  from a obtain m where m: "n = Suc m" by (cases n) auto
  have cm: "\<forall>c\<in>set cs. calc_depth c \<le> m"
    using calc_depth_child [of _ cs nm at] a soup m by fastforce
  then have "\<forall>p\<in>set (mark_keys [] cs). calc_depth (snd p) \<le> m"
    by (metis map_snd_mark_keys imageI set_map)
  from main_content_rec_returns [OF this] obtain once where
    once: "main_content_rec (Suc m) coef forced (mark_keys [] cs) = Some once"
      "list_all2 depth_le (mark_keys [] cs) once" by blast
  have "\<forall>p\<in>set once. calc_depth (snd p) \<le> m"
    using once(2) \<open>\<forall>p\<in>set (mark_keys [] cs). calc_depth (snd p) \<le> m\<close> by (rule depth_le_bound)
  from main_content_rec_returns [OF this] obtain twice where
    "main_content_rec (Suc m) coef forced once = Some twice" by blast
  with once soup m show "\<exists>t. main_content n coef forced soup = Some t" by simp
next
  assume "c \<in> set contents"
  then show "calc_depth c < calc_depth (Tag name attrs contents)" by (rule calc_depth_child)
next
  assume e: "find_all_True contents = []"
  have "\<And>seen. filter is_tag contents = [] \<Longrightarrow> mark_keys seen contents = map (Pair False) contents"
    by (induction contents) (auto split: if_splits)
  with e have "mark_keys [] contents = map (Pair False) contents" by (simp add: find_all_True_def)
  with e show "prune_children (\<lambda>sibs. None) coef forced (Tag name attrs contents) = Some (Tag name attrs contents)"
    by (simp add: prune_children_def prune_siblings_def decompose_loop_def calc_density_def
        filter_map o_def comp_def)
qed

theorem main_content_terminates_witness:
  "is_tag (Tag ''[document]'' fmempty [Tag ''div'' fmempty [Tag ''p'' fmempty [NavigableString ''x'']]]) \<and>
   calc_depth (Tag ''[document]'' fmempty [Tag ''div'' fmempty [Tag ''p'' fmempty [NavigableString ''x'']]]) < 4 \<and>
   (\<exists>t. main_content 4 (1/2) True
      (Tag ''[document]'' fmempty [Tag ''div'' fmempty [Tag ''p'' fmempty [NavigableString ''x'']]]) = Some t) \<and>
   NavigableString ''x'' \<in> set [NavigableString ''x''] \<and>
   calc_depth (NavigableString ''x'') < calc_depth (Tag ''p'' fmempty [NavigableString ''x'']) \<and>
   find_all_True [NavigableString ''x''] = [] \<and>
   prune_children (\<lambda>sibs. None) (1/2) True (Tag ''p'' fmempty [NavigableString ''x'']) =
     Some (Tag ''p'' fmempty [NavigableString ''x''])"
  using main_content_terminates [of
    "Tag ''[document]'' fmempty [Tag ''div'' fmempty [Tag ''p'' fmempty [NavigableString ''x'']]]"
    4 "1/2" True "NavigableString ''x''" "[NavigableString ''x'']" "''p''" fmempty]
  by (simp add: find_all_True_def)

subsection \<open>Only nodes that are not exempt are decomposed\<close>

lemma steps_below:
  "(decompose_step forced)\<^sup>*\<^sup>* c c' \<Longrightarrow>
   (decompose_step forced)\<^sup>*\<^sup>* (Tag name attrs (xs @ c # ys)) (Tag name attrs (xs @ c' # ys))"
proof (induction rule: rtranclp_induct)
  case base
  then show ?case by simp
next
  case (step y z)
  from step.hyps(2) have "decompose_step forced (Tag name attrs (xs @ y # ys)) (Tag name attrs (xs @ z # ys))"
    by (rule decompose_step.below)
  with step.IH show ?case by (rule rtranclp.rtrancl_into_rtrancl)
qed

lemma steps_children:
  "list_all2 (\<lambda>c c'. (decompose_step forced)\<^sup>*\<^sup>* c c') cs cs' \<Longrightarrow>
   (decompose_step forced)\<^sup>*\<^sup>* (Tag name attrs (pre @ cs)) (Tag name attrs (pre @ cs'))"
proof (induction arbitrary: pre rule: list_all2_induct)
  case Nil
  then show ?case by simp
next
  case (Cons c cs c' cs')
  have "(decompose_step forced)\<^sup>*\<^sup>* (Tag name attrs (pre @ c # cs)) (Tag name attrs (pre @ c' # cs))"
    using Cons.hyps(1) by (rule steps_below)
  moreover have "(decompose_step forced)\<^sup>*\<^sup>* (Tag name attrs ((pre @ [c']) @ cs)) (Tag name attrs ((pre @ [c']) @ cs'))"
    by (rule Cons.IH)
  ultimately show ?case by simp
qed

lemma steps_filter:
  "(\<And>p. p \<in> set ms \<Longrightarrow> \<not> keep p \<Longrightarrow> is_tag (snd p) \<and> \<not> exempt forced (snd p)) \<Longrightarrow>
   (decompose_step forced)\<^sup>*\<^sup>* (Tag name attrs (pre @ map snd ms)) (Tag name attrs (pre @ map snd (filter keep ms)))"
proof (induction ms arbitrary: pre)
  case Nil
  then show ?case by simp
next
  case (Cons m ms)
  have rest: "\<And>pre. (decompose_step forced)\<^sup>*\<^sup>* (Tag name attrs (pre @ map snd ms))
      (Tag name attrs (pre @ map snd (filter keep ms)))"
    by (rule Cons.IH) (simp add: Cons.prems)
  show ?case
  proof (cases "keep m")
    case True
    with rest [of "pre @ [snd m]"] show ?thesis by simp
  next
    case False
    with Cons.prems [of m] have "is_tag (snd m)" "\<not> exempt forced (snd m)" by simp_all
    then have "decompose_step forced (Tag name attrs (pre @ snd m # map snd ms)) (Tag name attrs (pre @ map snd ms))"
      by (rule decompose_step.here)
    then have "(decompose_step forced)\<^sup>*\<^sup>* (Tag name attrs (pre @ snd m # map snd ms)) (Tag name attrs (pre @ map snd ms))"
      by (rule r_into_rtranclp)
    with rest [of pre] False show ?thesis by simp
  qed
qed

lemma steps_prune_siblings:
  "(decompose_step forced)\<^sup>*\<^sup>* (Tag name attrs contents)
     (Tag name attrs (map snd (prune_siblings coef forced contents)))"
proof -
  let ?keep = "\<lambda>(k, nd). \<not> (k \<and> \<not> exempt forced nd \<and>
        (case map_of (calc_density (find_all_True contents)) nd of
           Some d \<Rightarrow> of_nat d < threshold coef (calc_density (find_all_True contents)) | None \<Rightarrow> False))"
  have "(decompose_step forced)\<^sup>*\<^sup>* (Tag name attrs ([] @ map snd (mark_keys [] contents)))
     (Tag name attrs ([] @ map snd (filter ?keep (mark_keys [] contents))))"
  proof (rule steps_filter)
    fix p assume p: "p \<in> set (mark_keys [] contents)" "\<not> ?keep p"
    obtain k nd where knd: "p = (k, nd)" by (cases p)
    with p(2) have "k" "\<not> exempt forced nd" by auto
    with p(1) knd show "is_tag (snd p) \<and> \<not> exempt forced (snd p)"
      using is_tag_key [of nd "[]" contents] by simp
  qed
  then show ?thesis
    by (simp add: prune_siblings_def decompose_loop_def map_snd_mark_keys Let_def)
qed

lemma map_opt_Some:
  "map_opt f xs = Some ys \<Longrightarrow> (\<And>x y. x \<in> set xs \<Longrightarrow> f x = Some y \<Longrightarrow> Q x y) \<Longrightarrow>
   list_all2 Q xs ys"
proof (induction xs arbitrary: ys)
  case Nil
  then show ?case by simp
next
  case (Cons x xs)
  from Cons.prems(1) obtain y ys' where
    y: "f x = Some y" "map_opt f xs = Some ys'" "ys = y # ys'"
    by (auto split: option.splits)
  from Cons.IH [OF y(2)] Cons.prems(2) have "list_all2 Q xs ys'" by simp
  moreover from Cons.prems(2) y(1) have "Q x y" by simp
  ultimately show ?case using y(3) by simp
qed

lemma repeat_opt_Some:
  assumes f: "\<And>u v. f u = Some v \<Longrightarrow> Q u v"
    and refl: "\<And>u. Q u u"
    and trans: "\<And>u v w. Q u v \<Longrightarrow> Q v w \<Longrightarrow> Q u w"
  shows "repeat_opt k f x = Some y \<Longrightarrow> Q x y"
proof (induction k arbitrary: x)
  case 0
  then show ?case by (simp add: refl)
next
  case (Suc k)
  from Suc.prems obtain v where v: "f x = Some v" "repeat_opt k f v = Some y"
    by (auto split: option.splits)
  from v(2) have "Q v y" by (rule Suc.IH)
  moreover from v(1) have "Q x v" by (rule f)
  ultimately show ?case using trans by blast
qed

lemma steps_pair_children:
  "list_all2 (steps_pair forced) xs ys \<Longrightarrow>
   (decompose_step forced)\<^sup>*\<^sup>* (Tag name attrs (map snd xs)) (Tag name attrs (map snd ys))"
proof -
  assume "list_all2 (steps_pair forced) xs ys"
  then have "list_all2 (\<lambda>c c'. (decompose_step forced)\<^sup>*\<^sup>* c c') (map snd xs) (map snd ys)"
    by (auto simp: list_all2_map1 list_all2_map2 steps_pair_def elim!: list_all2_mono)
  from steps_children [OF this, of name attrs "[]"] show ?thesis by simp
qed

lemma steps_pair_trans:
  "list_all2 (steps_pair forced) xs ys \<Longrightarrow> list_all2 (steps_pair forced) ys zs \<Longrightarrow>
   list_all2 (steps_pair forced) xs zs"
  using list_all2_trans [of "steps_pair forced" "steps_pair forced" "steps_pair forced" xs ys zs]
  by (auto simp: steps_pair_def)

lemma main_content_rec_steps:
  "main_content_rec n coef forced sibs = Some out \<Longrightarrow> list_all2 (steps_pair forced) sibs out"
proof (induction n arbitrary: sibs out)
  case 0
  then show ?case by simp
next
  case (Suc n)
  from Suc.prems have m: "map_opt (\<lambda>(k, nd).
        if k then map_option (Pair True) (prune_children (main_content_rec n coef forced) coef forced nd)
        else Some (k, nd)) sibs = Some out" by simp
  show ?case
  proof (rule map_opt_Some [OF m])
    fix x y assume x: "x \<in> set sibs"
      and y: "(case x of (k, nd) \<Rightarrow>
        if k then map_option (Pair True) (prune_children (main_content_rec n coef forced) coef forced nd)
        else Some (k, nd)) = Some y"
    obtain k nd where knd: "x = (k, nd)" by (cases x)
    show "steps_pair forced x y"
    proof (cases k)
      case False
      with knd y show ?thesis by (simp add: steps_pair_def)
    next
      case True
      with knd y obtain nd' where nd': "prune_children (main_content_rec n coef forced) coef forced nd = Some nd'"
        "y = (True, nd')" by auto
      have "(decompose_step forced)\<^sup>*\<^sup>* nd nd'"
      proof (cases nd)
        case (NavigableString s)
        with nd'(1) show ?thesis by (simp add: prune_children_def)
      next
        case (Tag name attrs contents)
        with nd'(1) obtain z where z:
          "repeat_opt (length (calc_density (find_all_True contents))) (main_content_rec n coef forced)
             (prune_siblings coef forced contents) = Some z" "nd' = Tag name attrs (map snd z)"
          by (auto simp: prune_children_def)
        have "list_all2 (steps_pair forced) (prune_siblings coef forced contents) z"
        proof (rule repeat_opt_Some [OF _ _ _ z(1)])
          show "\<And>u v. main_content_rec n coef forced u = Some v \<Longrightarrow> list_all2 (steps_pair forced) u v"
            by (rule Suc.IH)
          show "\<And>u. list_all2 (steps_pair forced) u u"
            by (simp add: list_all2_refl steps_pair_def)
          show "\<And>u v w. list_all2 (steps_pair forced) u v \<Longrightarrow> list_all2 (steps_pair forced) v w \<Longrightarrow>
            list_all2 (steps_pair forced) u w" by (rule steps_pair_trans)
        qed
        then have "(decompose_step forced)\<^sup>*\<^sup>* (Tag name attrs (map snd (prune_siblings coef forced contents)))
           (Tag name attrs (map snd z))" by (rule steps_pair_children)
        with steps_prune_siblings [of forced name attrs contents coef] Tag z(2) show ?thesis
          by simp
      qed
      with True knd nd'(2) show ?thesis by (simp add: steps_pair_def)
    qed
  qed
qed

lemma step_keeps_h1:
  "decompose_step forced t t' \<Longrightarrow>
   tag_name t' = tag_name t \<and> length (find_all ''h1'' t') = length (find_all ''h1'' t)"
proof (induction rule: decompose_step.induct)
  case (here d name attrs xs ys)
  then show ?case by (auto simp: exempt_def)
next
  case (below c c' name attrs xs ys)
  then show ?case by auto
qed

lemma steps_keep_h1:
  "(decompose_step forced)\<^sup>*\<^sup>* t t' \<Longrightarrow> length (find_all ''h1'' t') = length (find_all ''h1'' t)"
  by (induction rule: rtranclp_induct) (auto dest: step_keeps_h1)

text \<open>
  C1, as the code has it. Whatever \<open>main_content\<close> returns is reached from the soup by
  decomposing, one after the other, tags that at that moment are not paragraphs or
  level-1 or level-2 headings, have no level-1 heading below them and, in forced mode,
  have at most 3 paragraphs below them. Hence no level-1 heading is ever lost, neither
  by itself nor with an ancestor: the returned tree has as many of them as the soup.
\<close>

theorem main_content_decomposes_unprotected_only:
  "main_content n coef forced soup = Some t \<Longrightarrow>
   (decompose_step forced)\<^sup>*\<^sup>* soup t \<and> length (find_all ''h1'' t) = length (find_all ''h1'' soup)"
proof -
  assume a: "main_content n coef forced soup = Some t"
  then obtain name attrs contents where soup: "soup = Tag name attrs contents"
    by (cases soup) auto
  from a soup obtain once twice where o:
    "main_content_rec n coef forced (mark_keys [] contents) = Some once"
    "main_content_rec n coef forced once = Some twice" "t = Tag name attrs (map snd twice)"
    by (auto split: option.splits)
  have "list_all2 (steps_pair forced) (mark_keys [] contents) twice"
    using main_content_rec_steps [OF o(1)] main_content_rec_steps [OF o(2)] by (rule steps_pair_trans)
  then have "(decompose_step forced)\<^sup>*\<^sup>* (Tag name attrs (map snd (mark_keys [] contents)))
     (Tag name attrs (map snd twice))" by (rule steps_pair_children)
  with soup o(3) have s: "(decompose_step forced)\<^sup>*\<^sup>* soup t" by (simp add: map_snd_mark_keys)
  with steps_keep_h1 [OF s] show ?thesis by simp
qed

theorem main_content_decomposes_unprotected_only_witness:
  "main_content 3 (1/2) True
     (Tag ''[document]'' fmempty [Tag ''div'' fmempty
        [Tag ''h1'' fmempty [NavigableString ''T''], Tag ''nav'' fmempty [NavigableString ''Skip''],
         Tag ''div'' fmempty [Tag ''b'' fmempty [NavigableString ''y'']]]]) =
   Some (Tag ''[document]'' fmempty [Tag ''div'' fmempty
        [Tag ''h1'' fmempty [NavigableString ''T''],
         Tag ''div'' fmempty [Tag ''b'' fmempty [NavigableString ''y'']]]]) \<and>
   (decompose_step True)\<^sup>*\<^sup>*
     (Tag ''[document]'' fmempty [Tag ''div'' fmempty
        [Tag ''h1'' fmempty [NavigableString ''T''], Tag ''nav'' fmempty [NavigableString ''Skip''],
         Tag ''div'' fmempty [Tag ''b'' fmempty [NavigableString ''y'']]]])
     (Tag ''[document]'' fmempty [Tag ''div'' fmempty
        [Tag ''h1'' fmempty [NavigableString ''T''],
         Tag ''div'' fmempty [Tag ''b'' fmempty [NavigableString ''y'']]]])"
proof -
  have e: "main_content 3 (1/2) True
     (Tag ''[document]'' fmempty [Tag ''div'' fmempty
        [Tag ''h1'' fmempty [NavigableString ''T''], Tag ''nav'' fmempty [NavigableString ''Skip''],
         Tag ''div'' fmempty [Tag ''b'' fmempty [NavigableString ''y'']]]]) =
   Some (Tag ''[document]'' fmempty [Tag ''div'' fmempty
        [Tag ''h1'' fmempty [NavigableString ''T''],
         Tag ''div'' fmempty [Tag ''b'' fmempty [NavigableString ''y'']]]])"
    by (simp add: prune_children_def prune_siblings_def calc_density_def find_all_True_def
      threshold_def decompose_loop_def exempt_def numeral_nat)
  from main_content_decomposes_unprotected_only [OF e] e show ?thesis by simp
qed

text \<open>
  The exemption is a test on the node that is examined, not on what lies below a node
  that is removed: a paragraph inside a shallow \<open>div\<close> goes away with the \<open>div\<close>.
\<close>

theorem main_content_paragraph_lost_counterexample:
  "main_content 6 (1/2) True
     (Tag ''[document]'' fmempty [Tag ''html'' fmempty [Tag ''body'' fmempty
        [Tag ''div'' fmempty [Tag ''p'' fmempty [NavigableString ''x'']],
         Tag ''section'' fmempty [Tag ''div'' fmempty [Tag ''div'' fmempty
            [Tag ''div'' fmempty [NavigableString ''a'']]]]]]]) =
   Some (Tag ''[document]'' fmempty [Tag ''html'' fmempty [Tag ''body'' fmempty
        [Tag ''section'' fmempty [Tag ''div'' fmempty [Tag ''div'' fmempty
            [Tag ''div'' fmempty [NavigableString ''a'']]]]]]]) \<and>
   find_all ''p'' (Tag ''[document]'' fmempty [Tag ''html'' fmempty [Tag ''body'' fmempty
        [Tag ''div'' fmempty [Tag ''p'' fmempty [NavigableString ''x'']],
         Tag ''section'' fmempty [Tag ''div'' fmempty [Tag ''div'' fmempty
            [Tag ''div'' fmempty [NavigableString ''a'']]]]]]]) = [Tag ''p'' fmempty [NavigableString ''x'']] \<and>
   find_all ''p'' (Tag ''[document]'' fmempty [Tag ''html'' fmempty [Tag ''body'' fmempty
        [Tag ''section'' fmempty [Tag ''div'' fmempty [Tag ''div'' fmempty
            [Tag ''div'' fmempty [NavigableString ''a'']]]]]]]) = []"
  by (simp add: prune_children_def prune_siblings_def calc_density_def find_all_True_def
      threshold_def decompose_loop_def exempt_def numeral_nat)

subsection \<open>Equal siblings\<close>

text \<open>
  C2 at a sibling set with two equal tags. The dictionary has one entry for both
  \<open>span\<close> elements, the sum of its values is 3 + 1, the threshold is 2, and only the
  first \<open>span\<close> is examined and decomposed. The second one stays although it is not
  exempt and its depth 1 is below the threshold.
\<close>

theorem prune_siblings_skips_equal_sibling:
  "map snd (prune_siblings (1/2) True
      [Tag ''div'' fmempty [Tag ''div'' fmempty [Tag ''div'' fmempty [NavigableString ''a'']]],
       Tag ''span'' fmempty [NavigableString ''x''],
       Tag ''span'' fmempty [NavigableString ''x'']]) =
     [Tag ''div'' fmempty [Tag ''div'' fmempty [Tag ''div'' fmempty [NavigableString ''a'']]],
      Tag ''span'' fmempty [NavigableString ''x'']] \<and>
   \<not> exempt True (Tag ''span'' fmempty [NavigableString ''x'']) \<and>
   of_nat (calc_depth (Tag ''span'' fmempty [NavigableString ''x''])) <
     threshold (1/2) (calc_density (find_all_True
      [Tag ''div'' fmempty [Tag ''div'' fmempty [Tag ''div'' fmempty [NavigableString ''a'']]],
       Tag ''span'' fmempty [NavigableString ''x''],
       Tag ''span'' fmempty [NavigableString ''x'']]))"
  by (simp add: prune_children_def prune_siblings_def calc_density_def find_all_True_def
      threshold_def decompose_loop_def exempt_def)

theorem prune_siblings_skips_equal_sibling_witness:
  "length (prune_siblings (1/2) True
      [Tag ''div'' fmempty [Tag ''div'' fmempty [Tag ''div'' fmempty [NavigableString ''a'']]],
       Tag ''span'' fmempty [NavigableString ''x''],
       Tag ''span'' fmempty [NavigableString ''x'']]) = 2"
  using prune_siblings_skips_equal_sibling [THEN conjunct1, THEN arg_cong [where f = length]]
  by simp

text \<open>
  C4 at a page with three equal \<open>br\<close> elements. Each run of the outer loop over the
  \<open>body\<close> examines only the first of the equal siblings; the call makes two such runs
  and leaves one \<open>br\<close>, which a second call removes.
\<close>

theorem main_content_second_run_removes_more:
  "main_content 4 (1/2) True
     (Tag ''[document]'' fmempty [Tag ''html'' fmempty [Tag ''body'' fmempty
        [Tag ''br'' fmempty [], Tag ''br'' fmempty [], Tag ''br'' fmempty [],
         Tag ''div'' fmempty [NavigableString ''a'']]]]) =
   Some (Tag ''[document]'' fmempty [Tag ''html'' fmempty [Tag ''body'' fmempty
        [Tag ''br'' fmempty [], Tag ''div'' fmempty [NavigableString ''a'']]]]) \<and>
   main_content 4 (1/2) True
     (Tag ''[document]'' fmempty [Tag ''html'' fmempty [Tag ''body'' fmempty
        [Tag ''br'' fmempty [], Tag ''div'' fmempty [NavigableString ''a'']]]]) =
   Some (Tag ''[document]'' fmempty [Tag ''html'' fmempty [Tag ''body'' fmempty
        [Tag ''div'' fmempty [NavigableString ''a'']]]])"
  by (simp add: prune_children_def prune_siblings_def calc_density_def find_all_True_def
      threshold_def decompose_loop_def exempt_def numeral_nat)

theorem main_content_second_run_removes_more_witness:
  "Option.bind (main_content 4 (1/2) True
     (Tag ''[document]'' fmempty [Tag ''html'' fmempty [Tag ''body'' fmempty
        [Tag ''br'' fmempty [], Tag ''br'' fmempty [], Tag ''br'' fmempty [],
         Tag ''div'' fmempty [NavigableString ''a'']]]])) (main_content 4 (1/2) True) \<noteq>
   main_content 4 (1/2) True
     (Tag ''[document]'' fmempty [Tag ''html'' fmempty [Tag ''body'' fmempty
        [Tag ''br'' fmempty [], Tag ''br'' fmempty [], Tag ''br'' fmempty [],
         Tag ''div'' fmempty [NavigableString ''a'']]]])"
  using main_content_second_run_removes_more
  by (simp only: Option.bind.simps option.inject node.inject list.inject simp_thms) simp

section \<open>Properties of the paragraph loop\<close>

lemma replace_nonempty_absent:
  "old \<noteq> [] \<Longrightarrow> \<not> contains old s \<Longrightarrow> replace_nonempty old new s = s"
  by (induction s) auto

lemma take_append_butlast:
  "xs \<noteq> [] \<Longrightarrow> take (length ys) (xs @ butlast ys) = take (length ys) (xs @ ys @ zs)"
proof -
  assume "xs \<noteq> []"
  then have le: "length ys - length xs \<le> length ys - 1" by (cases xs) auto
  have "take (length ys) (xs @ butlast ys) =
      take (length ys) xs @ take (length ys - length xs) (take (length ys - 1) ys)"
    by (simp add: butlast_conv_take)
  also have "take (length ys - length xs) (take (length ys - 1) ys) = take (length ys - length xs) ys"
    using le by (simp add: min_def)
  also have "take (length ys) xs @ take (length ys - length xs) ys = take (length ys) (xs @ ys @ zs)"
    by simp
  finally show ?thesis .
qed

lemma replace_nonempty_first:
  "old \<noteq> [] \<Longrightarrow> \<not> contains old (a @ butlast old) \<Longrightarrow>
   replace_nonempty old new (a @ old @ b) = a @ new @ replace_nonempty old new b"
proof (induction a)
  case Nil
  then show ?case by (cases old) auto
next
  case (Cons c a)
  from Cons.prems(2) have no: "take (length old) ((c # a) @ butlast old) \<noteq> old"
    and rest: "\<not> contains old (a @ butlast old)" by auto
  from no have "take (length old) ((c # a) @ old @ b) \<noteq> old"
    using take_append_butlast [of "c # a" old b] by simp
  with Cons.IH [OF Cons.prems(1) rest] show ?case by simp
qed

text \<open>
  C6, as the code has it. \<open>str.replace\<close> is called without a count: for a paragraph
  whose trimmed text is not empty, the leftmost occurrence of the trimmed text is
  wrapped in line breaks and the replacement goes on in the rest of the text, so every
  occurrence found from the left is wrapped; a text without an occurrence is left as it
  is, and a paragraph whose text is the empty string is skipped.
\<close>

theorem wrap_paragraphs_every_occurrence:
  "(strip t \<noteq> [] \<and> \<not> contains (strip t) (a @ butlast (strip t)) \<longrightarrow>
      wrap_paragraphs (a @ strip t @ b) [t] =
        a @ [newline] @ strip t @ [newline] @ wrap_paragraphs b [t]) \<and>
   (strip t \<noteq> [] \<and> \<not> contains (strip t) s \<longrightarrow> wrap_paragraphs s [t] = s) \<and>
   wrap_paragraphs s ([] # ts) = wrap_paragraphs s ts"
proof -
  have ne: "strip t \<noteq> [] \<Longrightarrow> t \<noteq> []" by (auto simp: strip_def)
  have one: "strip t \<noteq> [] \<Longrightarrow> \<not> contains (strip t) (a @ butlast (strip t)) \<Longrightarrow>
      wrap_paragraphs (a @ strip t @ b) [t] =
        a @ [newline] @ strip t @ [newline] @ wrap_paragraphs b [t]"
    using replace_nonempty_first [of "strip t" a "newline # strip t @ [newline]" b] ne
    by (simp add: py_replace_def)
  have two: "strip t \<noteq> [] \<Longrightarrow> \<not> contains (strip t) s \<Longrightarrow> wrap_paragraphs s [t] = s"
    using replace_nonempty_absent [of "strip t" s] ne by (simp add: py_replace_def)
  from one two show ?thesis by simp
qed

theorem wrap_paragraphs_every_occurrence_witness:
  "strip '' a '' \<noteq> [] \<and> \<not> contains (strip '' a '') (''x '' @ butlast (strip '' a '')) \<and>
   wrap_paragraphs ''x a a'' ['' a ''] =
     [CHR ''x'', CHR '' '', newline, CHR ''a'', newline, CHR '' '', newline, CHR ''a'', newline] \<and>
   \<not> contains (strip '' a '') ''xyz'' \<and> wrap_paragraphs ''xyz'' ['' a ''] = ''xyz''"
  using wrap_paragraphs_every_occurrence [of "'' a ''" "''x ''" "'' a''" "''xyz''"]
  by (simp add: strip_def isspace_def py_replace_def)

theorem wrap_paragraphs_second_occurrence_counterexample:
  "wrap_paragraphs ''a b a'' [''a''] =
     [newline, CHR ''a'', newline, CHR '' '', CHR ''b'', CHR '' '', newline, CHR ''a'', newline] \<and>
   replace_first (strip ''a'') (newline # strip ''a'' @ [newline]) ''a b a'' =
     [newline, CHR ''a'', newline, CHR '' '', CHR ''b'', CHR '' '', CHR ''a'']"
  by (simp add: strip_def isspace_def py_replace_def)

section \<open>Properties of the link resolution\<close>

lemma get_urls_loop_returns:
  "\<forall>url\<in>set urls. href_of url \<noteq> None \<Longrightarrow> \<exists>r. get_urls_loop d urls r0 = Inr r"
  by (induction urls arbitrary: r0) (auto simp: Let_def)

lemma get_urls_loop_raises:
  "\<exists>url\<in>set urls. href_of url = None \<Longrightarrow> get_urls_loop d urls r0 = Inl KeyError"
  by (induction urls arbitrary: r0) (auto simp: Let_def split: option.splits)

text \<open>
  C9, as the code has it. A paragraph with empty text is skipped and leaves the text as
  it is, and without paragraphs or links nothing is inserted. When the page's URL
  starts with a scheme, \<open>_get_urls\<close> returns a dictionary exactly when every anchor has
  an \<open>href\<close> attribute; an anchor without one raises \<open>KeyError\<close>.
\<close>

theorem get_urls_needs_href:
  "wrap_paragraphs string ([] # ts) = wrap_paragraphs string ts \<and>
   wrap_paragraphs string [] = string \<and>
   add_urls re_sub string [] = Inr string \<and>
   (match_scheme domain \<noteq> None \<longrightarrow>
      get_urls [] domain = Inr [] \<and>
      ((\<exists>r_urls. get_urls urls domain = Inr r_urls) \<longleftrightarrow> (\<forall>url\<in>set urls. href_of url \<noteq> None)) \<and>
      ((\<exists>url\<in>set urls. href_of url = None) \<longrightarrow> get_urls urls domain = Inl KeyError))"
proof -
  have "match_scheme domain \<noteq> None \<Longrightarrow> \<exists>d. domain_name domain = Inr d"
    by (auto simp: domain_name_def)
  then show ?thesis
    using get_urls_loop_returns get_urls_loop_raises
    by (fastforce simp: get_urls_def)
qed

theorem get_urls_needs_href_witness:
  "match_scheme ''https://example.com/news'' \<noteq> None \<and>
   href_of (Tag ''a'' (fmupd ''href'' ''/about'' fmempty) [NavigableString ''About'']) \<noteq> None \<and>
   get_urls [Tag ''a'' (fmupd ''href'' ''/about'' fmempty) [NavigableString ''About'']]
      ''https://example.com/news'' = Inr [(''[https://example.com/about]'', ''About'')]"
  using get_urls_needs_href [of _ _ _ "''https://example.com/news''"
    "[Tag ''a'' (fmupd ''href'' ''/about'' fmempty) [NavigableString ''About'']]"]
  by (simp add: match_scheme_def get_urls_def domain_name_def py_split_def split_acc.simps)

theorem get_urls_missing_href_counterexample:
  "href_of (Tag ''a'' (fmupd ''name'' ''top'' fmempty) [NavigableString ''top'']) = None \<and>
   get_urls [Tag ''a'' (fmupd ''name'' ''top'' fmempty) [NavigableString ''top'']]
     ''https://example.com/news'' = Inl KeyError"
  by (simp add: get_urls_def domain_name_def match_scheme_def py_split_def split_acc.simps)

section \<open>Properties of the preprocessing\<close>

text \<open>
  C8 at a list. The pattern for \<open>ul\<close> looks for a closing literal with the character of
  code 1 in it and finds none in \<open></ul>\<close>: the list stays. The \<open>nav\<close> pattern, a raw
  string, removes the same content in a \<open>nav\<close> element.
\<close>

theorem prepocess_keeps_ul:
  "prepocess pre_processing ''<ul><li>a</li></ul>'' = ''<ul><li>a</li></ul>'' \<and>
   prepocess pre_processing ''<nav><li>a</li></nav>'' = []"
  by (simp add: prepocess_def pre_processing_def)

theorem prepocess_keeps_ul_witness:
  "prepocess pre_processing ''<ul><li>a</li></ul>'' \<noteq> []"
  using prepocess_keeps_ul by simp

section \<open>Properties of the reflow\<close>

lemma split_lines_nonempty: "split_lines s \<noteq> []"
  by (cases s) auto

lemma split_lines_plain: "newline \<notin> set w \<Longrightarrow> split_lines w = [w]"
  by (induction w) auto

lemma split_lines_append_newline:
  "split_lines (s @ newline # t) = split_lines s @ split_lines t"
  by (induction s) (auto simp: split_lines_nonempty)

lemma split_lines_append_plain:
  "newline \<notin> set w \<Longrightarrow>
   split_lines (s @ w) = butlast (split_lines s) @ [last (split_lines s) @ w]"
proof (induction s)
  case Nil
  then show ?case by (simp add: split_lines_plain)
next
  case (Cons c s)
  obtain l ls where sl: "split_lines s = l # ls"
    using split_lines_nonempty [of s] by (cases "split_lines s") auto
  with Cons show ?case by (cases ls) auto
qed

lemma isspace_newline: "isspace newline"
  by (simp add: isspace_def)

lemma lstrip_not_newline: "lstrip t \<noteq> [newline]"
proof
  assume a: "lstrip t = [newline]"
  have "lstrip t = [] \<or> \<not> isspace (hd (lstrip t))"
    unfolding lstrip_def by (metis hd_dropWhile)
  with a show False by (simp add: isspace_newline)
qed

lemma wrap_inv_plain:
  assumes inv: "wrap_inv m T (out, len)" and w: "newline \<notin> set w"
    and ok: "line_ok m T (last (split_lines out) @ w)"
    and le: "length (last (split_lines out) @ w) + 1 \<le> len'"
  shows "wrap_inv m T (out @ w, len')"
proof -
  have "list_all (line_ok m T) (butlast (split_lines out))"
    using inv by (auto simp: wrap_inv_def list_all_iff dest: in_set_butlastD)
  with w ok le show ?thesis
    by (simp add: wrap_inv_def split_lines_append_plain)
qed

lemma wrap_inv_break:
  assumes inv: "wrap_inv m T (out, len)" and w: "newline \<notin> set w" and ok: "line_ok m T w"
    and le: "length w + 1 \<le> len'"
  shows "wrap_inv m T (out @ newline # w, len')"
  using assms by (simp add: wrap_inv_def split_lines_append_newline split_lines_plain)

lemma wrap_inv_break_end:
  assumes inv: "wrap_inv m T (out, len)" and le: "1 \<le> len'"
  shows "wrap_inv m T (out @ [newline], len')"
  using assms by (simp add: wrap_inv_def split_lines_append_newline line_ok_def)

lemma wrap_step_inv:
  assumes inv: "wrap_inv m T st" and tok: "tok_ok t" and mem: "t \<in> T"
  shows "wrap_inv m T (wrap_step m st t)"
proof -
  obtain out len where st: "st = (out, len)" by (cases st)
  define w where "w = (if len = 1 then lstrip t else t)"
  have ws: "wrap_step m st t =
     (if (if w = [newline] then 1 else len + length t) > m
        then ((if w = [newline] then out @ [newline] else out) @ [newline] @ w, length w + 1)
      else if (if w = [newline] then 1 else len + length t) = m
        then ((if w = [newline] then out @ [newline] else out) @ w @ [newline], 1)
      else ((if w = [newline] then out @ [newline] else out) @ w,
            (if w = [newline] then 1 else len + length t)))"
    unfolding wrap_step_def Let_def st fst_conv snd_conv w_def by (rule refl)
  have cur: "length (last (split_lines out)) + 1 \<le> len"
    using inv st by (simp add: wrap_inv_def)
  have wlen: "length w \<le> length t"
    by (simp add: w_def lstrip_def length_dropWhile_le)
  have wcases: "w = t \<or> w = []"
    using tok by (auto simp: w_def tok_ok_def)
  show ?thesis
  proof (cases "w = [newline]")
    case True
    have a: "wrap_inv m T (out @ [newline], 1)"
      using wrap_inv_break_end [OF inv [unfolded st], of 1] by simp
    have b: "wrap_inv m T ((out @ [newline]) @ [newline], 1)"
      using wrap_inv_break_end [OF a, of 1] by simp
    have c: "wrap_inv m T (((out @ [newline]) @ [newline]) @ [newline], 1)"
      using wrap_inv_break_end [OF b, of 1] by simp
    have c2: "wrap_inv m T (((out @ [newline]) @ [newline]) @ [newline], 2)"
      using wrap_inv_break_end [OF b, of 2] by simp
    from True b c c2 show ?thesis
      by (auto simp: ws numeral_2_eq_2)
  next
    case False
    have plain: "newline \<notin> set w"
      using wcases tok False by (auto simp: tok_ok_def)
    have okw: "line_ok m T w"
      using wcases mem by (auto simp: line_ok_def)
    consider (gt) "len + length t > m" | (eq) "len + length t = m" | (lt) "len + length t < m"
      by linarith
    then show ?thesis
    proof cases
      case gt
      have "wrap_inv m T (out @ newline # w, length w + 1)"
        using wrap_inv_break [OF inv [unfolded st] plain okw, of "length w + 1"] by simp
      with gt False show ?thesis by (simp add: ws)
    next
      case eq
      have "length (last (split_lines out) @ w) \<le> m" using cur wlen eq by simp
      then have p: "wrap_inv m T (out @ w, len + length t)"
        using cur wlen wrap_inv_plain [OF inv [unfolded st] plain, of "len + length t"]
        by (simp add: line_ok_def)
      have "wrap_inv m T ((out @ w) @ [newline], 1)"
        using wrap_inv_break_end [OF p, of 1] by simp
      with eq False show ?thesis by (simp add: ws)
    next
      case lt
      have "length (last (split_lines out) @ w) \<le> m" using cur wlen lt by simp
      then have "wrap_inv m T (out @ w, len + length t)"
        using cur wlen wrap_inv_plain [OF inv [unfolded st] plain, of "len + length t"]
        by (simp add: line_ok_def)
      with lt False show ?thesis by (simp add: ws)
    qed
  qed
qed

lemma wrap_foldl_inv:
  "wrap_inv m T st \<Longrightarrow> \<forall>t\<in>set ts. tok_ok t \<and> t \<in> T \<Longrightarrow> wrap_inv m T (foldl (wrap_step m) st ts)"
  by (induction ts arbitrary: st) (simp_all add: wrap_step_inv)

lemma wrap_words_lines:
  assumes "\<forall>t\<in>set ts. tok_ok t" and "l \<in> set (split_lines (wrap_words m ts))"
  shows "length l \<le> m \<or> l \<in> set ts"
proof -
  have "wrap_inv m (set ts) ([], 1)" by (simp add: wrap_inv_def line_ok_def)
  then have "wrap_inv m (set ts) (foldl (wrap_step m) ([], 1) ts)"
    using assms(1) wrap_foldl_inv [of m "set ts" "([], 1)" ts] by simp
  with assms(2) show ?thesis
    by (auto simp: wrap_inv_def wrap_words_def list_all_iff line_ok_def)
qed

subsection \<open>The words\<close>

lemma isword_not_space: "isword c \<Longrightarrow> \<not> isspace c"
  by (auto simp: isword_def isspace_def Let_def)

lemma nospace_tok_ok: "\<forall>c\<in>set t. \<not> isspace c \<Longrightarrow> tok_ok t"
proof -
  assume a: "\<forall>c\<in>set t. \<not> isspace c"
  then have "newline \<notin> set t" using isspace_newline by blast
  moreover from a have "lstrip t = t" by (cases t) (auto simp: lstrip_def)
  ultimately show ?thesis by (simp add: tok_ok_def)
qed

lemma single_tok_ok: "tok_ok [c]"
  by (auto simp: tok_ok_def lstrip_def)

lemma take_takeWhile_all:
  "k \<le> length (takeWhile P xs) \<Longrightarrow> \<forall>x\<in>set (take k xs). P x"
proof -
  assume k: "k \<le> length (takeWhile P xs)"
  have "take k xs = take k (takeWhile P xs @ dropWhile P xs)" by simp
  also have "\<dots> = take k (takeWhile P xs)" using k by (simp del: takeWhile_dropWhile_id)
  finally have "set (take k xs) \<subseteq> set (takeWhile P xs)" by (simp add: set_take_subset)
  then show ?thesis by (auto dest: set_takeWhileD)
qed

lemma bracket_body_nospace:
  "bracket_body rest = Some k \<Longrightarrow> \<forall>c\<in>set (take k rest). \<not> isspace c"
proof -
  assume "bracket_body rest = Some k"
  then have "k \<le> length (takeWhile (\<lambda>c. \<not> isspace c) rest)"
    by (auto simp: bracket_body_def Let_def split: if_splits)
  then show ?thesis by (rule take_takeWhile_all)
qed

lemma match_bracket_nospace:
  assumes "match_bracket s = Some n"
  shows "\<forall>c\<in>set (take n s). \<not> isspace c"
proof (cases "take 9 s = ''[https://''")
  case True
  with assms obtain k where k: "bracket_body (drop 9 s) = Some k" "n = 9 + k"
    by (auto simp: match_bracket_def)
  have "take n s = take 9 s @ take k (drop 9 s)" using k(2) by (simp add: take_add)
  with True bracket_body_nospace [OF k(1)] show ?thesis by (auto simp: isspace_def)
next
  case False
  with assms have t8: "take 8 s = ''[http://''"
    by (auto simp: match_bracket_def split: if_splits)
  with False assms obtain k where k: "bracket_body (drop 8 s) = Some k" "n = 8 + k"
    by (auto simp: match_bracket_def)
  have "take n s = take 8 s @ take k (drop 8 s)" using k(2) by (simp add: take_add)
  with t8 bracket_body_nospace [OF k(1)] show ?thesis by (auto simp: isspace_def)
qed

lemma findall_tok_ok: "t \<in> set (findall s) \<Longrightarrow> tok_ok t"
proof (induction s arbitrary: t rule: findall.induct)
  case 1
  then show ?case by simp
next
  case (2 c cs)
  show ?case
  proof (cases "match_bracket (c # cs)")
    case (Some n)
    with "2.prems" have "t = take n (c # cs) \<or> t \<in> set (findall (drop (n - 1) cs))" by simp
    then show ?thesis
    proof
      assume "t = take n (c # cs)"
      with match_bracket_nospace [OF Some] show ?thesis by (simp add: nospace_tok_ok)
    next
      assume "t \<in> set (findall (drop (n - 1) cs))"
      with Some show ?thesis using "2.IH" by blast
    qed
  next
    case None
    show ?thesis
    proof (cases "isword c")
      case True
      with None "2.prems" have "t = c # takeWhile isword cs \<or> t \<in> set (findall (dropWhile isword cs))"
        by simp
      then show ?thesis
      proof
        assume "t = c # takeWhile isword cs"
        with True have "\<forall>x\<in>set t. \<not> isspace x"
          by (auto dest: set_takeWhileD isword_not_space)
        then show ?thesis by (rule nospace_tok_ok)
      next
        assume "t \<in> set (findall (dropWhile isword cs))"
        with None True show ?thesis using "2.IH" by blast
      qed
    next
      case False
      show ?thesis
      proof (cases "ispunct c")
        case True
        with None False "2.prems" have "t = [c] \<or> t \<in> set (findall cs)" by simp
        with None False True show ?thesis using "2.IH" single_tok_ok by blast
      next
        case np: False
        with None False "2.prems" have "t \<in> set (findall cs)" by simp
        with None False np show ?thesis using "2.IH" by blast
      qed
    qed
  qed
qed

subsection \<open>The final replacement\<close>

lemma replace_breaks_lines:
  "hd (split_lines (replace_nonempty [newline, newline, newline] [newline] s)) = hd (split_lines s) \<and>
   set (tl (split_lines (replace_nonempty [newline, newline, newline] [newline] s))) \<subseteq>
     set (tl (split_lines s))"
proof (induction "[newline, newline, newline]" "[newline]" s rule: replace_nonempty.induct)
  case 1
  then show ?case by simp
next
  case (2 c cs)
  show ?case
  proof (cases "take 3 (c # cs) = [newline, newline, newline]")
    case True
    then obtain rest where cs: "c = newline" "cs = newline # newline # rest"
      by (cases cs; cases "tl cs") auto
    obtain l ls where r: "split_lines (replace_nonempty [newline, newline, newline] [newline] rest) = l # ls"
      using split_lines_nonempty by (cases "split_lines (replace_nonempty [newline, newline, newline] [newline] rest)") auto
    obtain l' ls' where r': "split_lines rest = l' # ls'"
      using split_lines_nonempty by (cases "split_lines rest") auto
    from "2.hyps"(1) True cs r r' show ?thesis by (auto simp: numeral_2_eq_2 numeral_3_eq_3)
  next
    case False
    obtain l ls where r: "split_lines (replace_nonempty [newline, newline, newline] [newline] cs) = l # ls"
      using split_lines_nonempty by (cases "split_lines (replace_nonempty [newline, newline, newline] [newline] cs)") auto
    obtain l' ls' where r': "split_lines cs = l' # ls'"
      using split_lines_nonempty by (cases "split_lines cs") auto
    from "2.hyps"(2) False r r' show ?thesis by (auto simp: numeral_2_eq_2 numeral_3_eq_3)
  qed
qed

lemma replace_breaks_subset:
  "set (split_lines (py_replace [newline, newline, newline] [newline] s)) \<subseteq> set (split_lines s)"
proof -
  let ?r = "split_lines (replace_nonempty [newline, newline, newline] [newline] s)"
  obtain l ls where r: "?r = l # ls" using split_lines_nonempty by (cases ?r) auto
  obtain l' ls' where r': "split_lines s = l' # ls'"
    using split_lines_nonempty by (cases "split_lines s") auto
  from replace_breaks_lines [of s] r r' show ?thesis by (auto simp: py_replace_def)
qed

text \<open>
  C7. Every line of the reflowed text is at most \<open>max_length\<close> characters long, or it is
  one of the words found in the text, standing alone on the line, whose own length
  exceeds \<open>max_length\<close>.
\<close>

theorem reflow_line_width:
  "line \<in> set (split_lines (reflow max_length text)) \<Longrightarrow>
   length line \<le> max_length \<or> (line \<in> set (findall text) \<and> max_length < length line)"
proof -
  assume "line \<in> set (split_lines (reflow max_length text))"
  then have "line \<in> set (split_lines (wrap_words max_length (findall text)))"
    using replace_breaks_subset by (auto simp: reflow_def)
  moreover have "\<forall>t\<in>set (findall text). tok_ok t" by (simp add: findall_tok_ok)
  ultimately have "length line \<le> max_length \<or> line \<in> set (findall text)"
    using wrap_words_lines by blast
  then show ?thesis by auto
qed

theorem reflow_line_width_witness:
  "''abcdefg'' \<in> set (split_lines (reflow 3 ''abcdefg hi'')) \<and>
   ''abcdefg'' \<in> set (findall ''abcdefg hi'') \<and> 3 < length ''abcdefg''"
  using reflow_line_width [of "''abcdefg''" 3 "''abcdefg hi''"]
  by (simp add: reflow_def wrap_words_def wrap_step_def py_replace_def match_bracket_def
      isword_def isspace_def ispunct_def lstrip_def Let_def)

section \<open>Properties of the domain extraction\<close>

lemma split_acc_no_sep:
  "\<not> contains sep s \<Longrightarrow> split_acc sep acc s = [acc @ s]"
proof (induction s arbitrary: acc)
  case Nil
  then show ?case by (simp add: split_acc.simps)
next
  case (Cons c cs)
  then show ?case by (subst split_acc.simps) auto
qed

lemma hd_split_acc_slash:
  "hd (split_acc ''/'' acc s) = acc @ takeWhile (\<lambda>c. c \<noteq> CHR ''/'') s"
proof (induction s arbitrary: acc)
  case Nil
  then show ?case by (simp add: split_acc.simps)
next
  case (Cons c cs)
  show ?case by (subst split_acc.simps) (simp add: Cons.IH)
qed

lemma split_acc_nonempty: "split_acc sep acc s \<noteq> []"
  by (induction sep acc s rule: split_acc.induct) (subst split_acc.simps, simp)

lemma last_split_http:
  "\<not> contains ''//'' rest \<Longrightarrow> last (py_split ''//'' (''http://'' @ rest)) = rest"
  by (simp add: py_split_def split_acc.simps [of _ _ "_ # _"] split_acc_no_sep)

lemma last_split_https:
  "\<not> contains ''//'' rest \<Longrightarrow> last (py_split ''//'' (''https://'' @ rest)) = rest"
  by (simp add: py_split_def split_acc.simps [of _ _ "_ # _"] split_acc_no_sep)

text \<open>
  C10. The host is cut from the last piece of \<open>url.split('//')\<close>. When nothing after the
  scheme contains \<open>'//'\<close> that piece is the whole remainder, and the result is the scheme
  followed by the remainder up to its first \<open>'/'\<close>. With \<open>'//'\<close> in the path the last piece
  lies inside the path: for \<open>https://example.com/a//b\<close> the result is \<open>https://b\<close>.
\<close>

theorem domain_name_last_double_slash:
  "(\<not> contains ''//'' rest \<longrightarrow>
      domain_name (''http://'' @ rest) =
        Inr (''http://'' @ takeWhile (\<lambda>c. c \<noteq> CHR ''/'') rest) \<and>
      domain_name (''https://'' @ rest) =
        Inr (''https://'' @ takeWhile (\<lambda>c. c \<noteq> CHR ''/'') rest)) \<and>
   domain_name ''https://example.com/a//b'' = Inr ''https://b'' \<and>
   ''https://b'' \<noteq> ''https://'' @ takeWhile (\<lambda>c. c \<noteq> CHR ''/'') ''example.com/a//b''"
proof -
  have a: "\<not> contains ''//'' rest \<Longrightarrow>
      domain_name (''http://'' @ rest) =
        Inr (''http://'' @ takeWhile (\<lambda>c. c \<noteq> CHR ''/'') rest)"
    using last_split_http [of rest]
    by (simp add: domain_name_def match_scheme_def py_split_def hd_split_acc_slash)
  have b: "\<not> contains ''//'' rest \<Longrightarrow>
      domain_name (''https://'' @ rest) =
        Inr (''https://'' @ takeWhile (\<lambda>c. c \<noteq> CHR ''/'') rest)"
    using last_split_https [of rest]
    by (simp add: domain_name_def match_scheme_def py_split_def hd_split_acc_slash)
  have c: "domain_name ''https://example.com/a//b'' = Inr ''https://b''"
    by (simp add: domain_name_def match_scheme_def py_split_def split_acc.simps)
  from a b c show ?thesis by simp
qed

theorem domain_name_last_double_slash_witness:
  "\<not> contains ''//'' ''example.com/news'' \<and>
   domain_name ''https://example.com/news'' = Inr ''https://example.com''"
  using domain_name_last_double_slash [of "''example.com/news''"]
  by simp

end
